theory Spec2Isabelle
  imports Complex_Main
begin

section \<open>Errors\<close>

text \<open>
  The exceptions that the modelled code paths of \<^verbatim>\<open>main.py\<close> can raise.  A function
  that may raise returns \<open>py_error + 'a\<close>, with \<open>Inl\<close> for the exception.
\<close>

datatype py_error = ValueError | OverflowError | ZeroDivisionError | KeyError

section \<open>Calendar dates\<close>

text \<open>
  \<^verbatim>\<open>datetime.date\<close> of the Python standard library, after its reference implementation
  (\<^verbatim>\<open>_pydatetime.py\<close>): a date is a triple of year, month and day; the constructor checks the
  fields; arithmetic with a \<^verbatim>\<open>timedelta\<close> goes through the proleptic Gregorian ordinal, on
  which 0001-01-01 is day 1; comparison is the comparison of the triples.  Python integers
  are unbounded, hence \<open>int\<close>; \<^verbatim>\<open>//\<close> and \<^verbatim>\<open>%\<close> round towards minus infinity, as \<open>div\<close> and
  \<open>mod\<close> on \<open>int\<close> do.
\<close>

record date =
  year :: int
  month :: int
  day :: int

definition MINYEAR :: int where "MINYEAR = 1"
definition MAXYEAR :: int where "MAXYEAR = 9999"
definition MAXORDINAL :: int where "MAXORDINAL = 3652059"

definition DAYS_IN_MONTH :: "int list" where
  "DAYS_IN_MONTH = [-1, 31, 28, 31, 30, 31, 30, 31, 31, 30, 31, 30, 31]"

definition DAYS_BEFORE_MONTH :: "int list" where
  "DAYS_BEFORE_MONTH = [-1, 0, 31, 59, 90, 120, 151, 181, 212, 243, 273, 304, 334]"

definition is_leap :: "int \<Rightarrow> bool" where
  "is_leap y \<longleftrightarrow> y mod 4 = 0 \<and> (y mod 100 \<noteq> 0 \<or> y mod 400 = 0)"

definition days_before_year :: "int \<Rightarrow> int" where
  "days_before_year y0 = (let y = y0 - 1 in y * 365 + y div 4 - y div 100 + y div 400)"

definition days_in_month :: "int \<Rightarrow> int \<Rightarrow> int" where
  "days_in_month y m = (if m = 2 \<and> is_leap y then 29 else DAYS_IN_MONTH ! nat m)"

definition days_before_month :: "int \<Rightarrow> int \<Rightarrow> int" where
  "days_before_month y m = DAYS_BEFORE_MONTH ! nat m + (if m > 2 \<and> is_leap y then 1 else 0)"

definition ymd2ord :: "int \<Rightarrow> int \<Rightarrow> int \<Rightarrow> int" where
  "ymd2ord y m d = days_before_year y + days_before_month y m + d"

definition DI400Y :: int where "DI400Y = 146097"
definition DI100Y :: int where "DI100Y = 36524"
definition DI4Y :: int where "DI4Y = 1461"

text \<open>
  \<^verbatim>\<open>_ord2ymd\<close>: the year from the position in the 400-, 100-, 4- and 1-year cycles, the
  month from an estimate that is corrected when it is one too large.
\<close>

definition month_day :: "bool \<Rightarrow> int \<Rightarrow> int \<times> int" where
  "month_day leapyear n =
     (let month = (n + 50) div 32;
          preceding = DAYS_BEFORE_MONTH ! nat month + (if month > 2 \<and> leapyear then 1 else 0)
      in if preceding > n
         then (let month' = month - 1;
                   preceding' = preceding
                      - (DAYS_IN_MONTH ! nat month' + (if month' = 2 \<and> leapyear then 1 else 0))
               in (month', n - preceding' + 1))
         else (month, n - preceding + 1))"

definition ord2ymd :: "int \<Rightarrow> int \<times> int \<times> int" where
  "ord2ymd n0 =
     (let n = n0 - 1;
          n400 = n div DI400Y; n = n mod DI400Y;
          n100 = n div DI100Y; n = n mod DI100Y;
          n4 = n div DI4Y; n = n mod DI4Y;
          n1 = n div 365; n = n mod 365;
          y = n400 * 400 + 1 + (n100 * 100 + n4 * 4 + n1)
      in if n1 = 4 \<or> n100 = 4 then (y - 1, 12, 31)
         else (let leapyear = (n1 = 3 \<and> (n4 \<noteq> 24 \<or> n100 = 3));
                   (m, d) = month_day leapyear n
               in (y, m, d)))"

definition valid_date :: "date \<Rightarrow> bool" where
  "valid_date x \<longleftrightarrow>
     MINYEAR \<le> year x \<and> year x \<le> MAXYEAR \<and> 1 \<le> month x \<and> month x \<le> 12 \<and>
     1 \<le> day x \<and> day x \<le> days_in_month (year x) (month x)"

text \<open>\<^verbatim>\<open>date(year, month, day)\<close>: raises \<^verbatim>\<open>ValueError\<close> when a field is out of range.\<close>

definition mk_date :: "int \<Rightarrow> int \<Rightarrow> int \<Rightarrow> py_error + date" where
  "mk_date y m d =
     (if \<not> (MINYEAR \<le> y \<and> y \<le> MAXYEAR) then Inl ValueError
      else if \<not> (1 \<le> m \<and> m \<le> 12) then Inl ValueError
      else if \<not> (1 \<le> d \<and> d \<le> days_in_month y m) then Inl ValueError
      else Inr \<lparr>year = y, month = m, day = d\<rparr>)"

definition toordinal :: "date \<Rightarrow> int" where
  "toordinal x = ymd2ord (year x) (month x) (day x)"

definition fromordinal :: "int \<Rightarrow> date" where
  "fromordinal n = (case ord2ymd n of (y, m, d) \<Rightarrow> \<lparr>year = y, month = m, day = d\<rparr>)"

text \<open>\<^verbatim>\<open>date.weekday()\<close>: Monday is 0, Tuesday is 1, Sunday is 6.\<close>

definition weekday :: "date \<Rightarrow> int" where
  "weekday x = (toordinal x + 6) mod 7"

text \<open>
  \<^verbatim>\<open>date + timedelta(days=k)\<close> and \<^verbatim>\<open>date - timedelta(days=k)\<close>: the result must lie between
  0001-01-01 and 9999-12-31, else \<^verbatim>\<open>OverflowError\<close>.
\<close>

definition date_add_days :: "date \<Rightarrow> int \<Rightarrow> py_error + date" where
  "date_add_days x k =
     (let ord = toordinal x + k
      in if 0 < ord \<and> ord \<le> MAXORDINAL then Inr (fromordinal ord) else Inl OverflowError)"

definition date_sub_days :: "date \<Rightarrow> int \<Rightarrow> py_error + date" where
  "date_sub_days x k = date_add_days x (- k)"

text \<open>Comparison of dates: lexicographic on (year, month, day).\<close>

definition date_le :: "date \<Rightarrow> date \<Rightarrow> bool" where
  "date_le a b \<longleftrightarrow>
     year a < year b \<or>
     (year a = year b \<and> (month a < month b \<or> (month a = month b \<and> day a \<le> day b)))"


section \<open>Texts\<close>

text \<open>
  A Python \<^verbatim>\<open>str\<close> is a sequence of Unicode code points: \<open>nat list\<close>.  \<open>str\<close> turns an
  ASCII literal into such a text.  The digit class \<^verbatim>\<open>\d\<close>, \<^verbatim>\<open>str.isdigit\<close> and the
  numerals read by \<^verbatim>\<open>int\<close> and \<^verbatim>\<open>float\<close> are modelled on the ASCII digits;
  the decimal digits of other scripts are outside the model.
\<close>

type_synonym pystr = "nat list"

definition str :: "string \<Rightarrow> pystr" where
  "str s = map of_char s"

text \<open>\<^verbatim>\<open>str.isspace\<close> on one code point: the characters that \<^verbatim>\<open>str.strip()\<close> removes.\<close>

definition is_space :: "nat \<Rightarrow> bool" where
  "is_space c \<longleftrightarrow>
     (9 \<le> c \<and> c \<le> 13) \<or> (28 \<le> c \<and> c \<le> 32) \<or> c = 133 \<or> c = 160 \<or> c = 5760 \<or>
     (8192 \<le> c \<and> c \<le> 8202) \<or> c = 8232 \<or> c = 8233 \<or> c = 8239 \<or> c = 8287 \<or> c = 12288"

definition strip :: "pystr \<Rightarrow> pystr" where
  "strip t = rev (dropWhile is_space (rev (dropWhile is_space t)))"

text \<open>
  \<^verbatim>\<open>str.lower()\<close> on the capital letters of Basic Latin (A to Z) and of the Cyrillic block
  (U+0400 to U+042F), the two alphabets of the keywords that \<^verbatim>\<open>parse_date\<close> looks for; every
  other code point is left as it is.
\<close>

definition lower_cp :: "nat \<Rightarrow> nat" where
  "lower_cp c =
     (if 65 \<le> c \<and> c \<le> 90 then c + 32
      else if 1040 \<le> c \<and> c \<le> 1071 then c + 32
      else if 1024 \<le> c \<and> c \<le> 1039 then c + 80
      else c)"

definition lower :: "pystr \<Rightarrow> pystr" where
  "lower t = map lower_cp t"

definition is_digit :: "nat \<Rightarrow> bool" where
  "is_digit c \<longleftrightarrow> 48 \<le> c \<and> c \<le> 57"

text \<open>\<^verbatim>\<open>str.isdigit()\<close>: at least one character, all of them digits.\<close>

definition isdigit :: "pystr \<Rightarrow> bool" where
  "isdigit t \<longleftrightarrow> t \<noteq> [] \<and> list_all is_digit t"

text \<open>The value of a run of decimal digits, as \<^verbatim>\<open>int\<close> reads it.\<close>

definition int_of_digits :: "pystr \<Rightarrow> int" where
  "int_of_digits ds = foldl (\<lambda>a c. 10 * a + int (c - 48)) 0 ds"

text \<open>\<^verbatim>\<open>text.replace(",", ".")\<close>\<close>

definition replace_comma :: "pystr \<Rightarrow> pystr" where
  "replace_comma t = map (\<lambda>c. if c = 44 then 46 else c) t"

subsection \<open>Numerals\<close>

text \<open>
  The digit part of a Python numeral: a digit, then digits each optionally preceded by one
  underscore.  \<open>digitpart\<close> returns the digits read (underscores dropped) and the rest of
  the text.
\<close>

fun digitpart_tail :: "pystr \<Rightarrow> pystr \<times> pystr" where
  "digitpart_tail [] = ([], [])"
| "digitpart_tail [c] = (if is_digit c then ([c], []) else ([], [c]))"
| "digitpart_tail (c # c' # cs) =
     (if is_digit c then (case digitpart_tail (c' # cs) of (ds, r) \<Rightarrow> (c # ds, r))
      else if c = 95 \<and> is_digit c' then (case digitpart_tail cs of (ds, r) \<Rightarrow> (c' # ds, r))
      else ([], c # c' # cs))"

definition digitpart :: "pystr \<Rightarrow> (pystr \<times> pystr) option" where
  "digitpart t =
     (case t of
        [] \<Rightarrow> None
      | c # cs \<Rightarrow> if is_digit c then (case digitpart_tail cs of (ds, r) \<Rightarrow> Some (c # ds, r))
                  else None)"

text \<open>An optional sign: the factor it stands for and the rest of the text.\<close>

definition opt_sign :: "pystr \<Rightarrow> int \<times> pystr" where
  "opt_sign t =
     (case t of
        [] \<Rightarrow> (1, [])
      | c # cs \<Rightarrow> if c = 45 then (- 1, cs) else if c = 43 then (1, cs) else (1, c # cs))"

text \<open>
  \<^verbatim>\<open>int(text)\<close> in base 10: surrounding whitespace is stripped, then an optional sign and a
  digit part must make up the whole text; \<open>None\<close> stands for \<^verbatim>\<open>ValueError\<close>.
\<close>

definition py_int :: "pystr \<Rightarrow> int option" where
  "py_int t =
     (case opt_sign (strip t) of (sg, r) \<Rightarrow>
        (case digitpart r of
           None \<Rightarrow> None
         | Some (ds, r') \<Rightarrow> if r' = [] then Some (sg * int_of_digits ds) else None))"





text \<open>
  Float division \<^verbatim>\<open>a / b\<close> raises \<^verbatim>\<open>ZeroDivisionError\<close> when the divisor
  is zero.
\<close>

definition truediv :: "rat \<Rightarrow> rat \<Rightarrow> py_error + rat" where
  "truediv a b = (if b = 0 then Inl ZeroDivisionError else Inr (a / b))"

section \<open>Helpers of the bot\<close>

text \<open>
  The clock: what \<^verbatim>\<open>datetime.now(timezone.utc).date()\<close> and \<^verbatim>\<open>datetime.now().year\<close>
  (local time) return at the moment of the call.
\<close>

record clock =
  utc_today :: date
  local_year :: int

text \<open>The keywords of \<^verbatim>\<open>parse_date\<close>; the first is the Russian word for today.\<close>

definition kw_segodnya :: pystr where
  "kw_segodnya = [1089, 1077, 1075, 1086, 1076, 1085, 1103]"

definition kw_today :: pystr where
  "kw_today = str ''today''"

text \<open>
  \<^verbatim>\<open>re.match(r"(\d{1,2})[./](\d{1,2})", txt)\<close>: the pattern is looked for at the start of
  the text only, and nothing is required of what follows it.  Both groups are greedy: two
  digits when there are two.  The result is the two groups.
\<close>

definition match_day_month :: "pystr \<Rightarrow> (pystr \<times> pystr) option" where
  "match_day_month txt =
     (let g1 = takeWhile is_digit (take 2 txt)
      in if g1 = [] then None
         else (case drop (length g1) txt of
                 [] \<Rightarrow> None
               | c # r \<Rightarrow>
                   if c = 46 \<or> c = 47 then
                     (let g2 = takeWhile is_digit (take 2 r)
                      in if g2 = [] then None else Some (g1, g2))
                   else None))"

definition parse_date :: "clock \<Rightarrow> pystr \<Rightarrow> date option" where
  "parse_date clk txt0 =
     (let txt = lower (strip txt0)
      in if txt = kw_segodnya \<or> txt = kw_today then Some (utc_today clk)
         else (case match_day_month txt of
                 None \<Rightarrow> None
               | Some (g1, g2) \<Rightarrow>
                   (let d = int_of_digits g1; m = int_of_digits g2
                    in case mk_date (local_year clk) m d of
                         Inl e \<Rightarrow> None
                       | Inr x \<Rightarrow> Some x)))"

definition tuesday_week_range :: "clock \<Rightarrow> date option \<Rightarrow> py_error + date \<times> date" where
  "tuesday_week_range clk r =
     (let ref = (case r of None \<Rightarrow> utc_today clk | Some x \<Rightarrow> x);
          offset = (weekday ref - 1) mod 7
      in case date_sub_days ref offset of
           Inl e \<Rightarrow> Inl e
         | Inr start \<Rightarrow>
             (case date_add_days start 6 of
                Inl e \<Rightarrow> Inl e
              | Inr en \<Rightarrow> Inr (start, en)))"

section \<open>The ledger\<close>

text \<open>
  A deal as it is stored.  The field \<^verbatim>\<open>date_iso\<close> holds the ISO text of a date, written by
  \<^verbatim>\<open>isoformat()\<close> and read back by \<^verbatim>\<open>datetime.fromisoformat(...).date()\<close>; the model
  keeps the date that the text denotes.
\<close>

record deal =
  date_iso :: date
  index :: int
  name :: pystr
  rub :: rat
  fee :: rat
  rate :: rat
  clean_rub :: rat
  usd :: rat
  pool :: rat
  share :: rat
  members :: "pystr list"

text \<open>
  The file \<^verbatim>\<open>deals.json\<close>: it does not exist, or reading or decoding it raises, or it
  holds the JSON text of a list of deals.
\<close>

datatype save_file = Absent | Unreadable | Stored "deal list"

definition load_deals :: "save_file \<Rightarrow> deal list" where
  "load_deals f = (case f of Absent \<Rightarrow> [] | Unreadable \<Rightarrow> [] | Stored ds \<Rightarrow> ds)"

definition save_deals :: "deal list \<Rightarrow> save_file" where
  "save_deals deals = Stored deals"

definition filter_deals_by_date_range :: "save_file \<Rightarrow> date \<Rightarrow> date \<Rightarrow> deal list" where
  "filter_deals_by_date_range f start en =
     filter (\<lambda>d. date_le start (date_iso d) \<and> date_le (date_iso d) en) (load_deals f)"

definition get_next_index_for_date :: "deal list \<Rightarrow> date \<Rightarrow> int" where
  "get_next_index_for_date deals d =
     (let same_day = filter (\<lambda>x. date_iso x = d) deals in int (length same_day) + 1)"

section \<open>The conversation that creates a deal\<close>

text \<open>
  The states of the conversation handler, and \<^verbatim>\<open>context.user_data\<close>, the dictionary in
  which the handlers collect the fields: a key that has not been stored yet reads as
  \<open>None\<close>, and looking it up raises \<^verbatim>\<open>KeyError\<close>.
\<close>

datatype conv_state = DATE | NAME | AMOUNT | FEE | RATE | MEMBERS | END

record user_data =
  ud_date :: "date option"
  ud_name :: "pystr option"
  ud_amount :: "rat option"
  ud_fee :: "rat option"
  ud_rate :: "rat option"

definition lookup :: "'a option \<Rightarrow> py_error + 'a" where
  "lookup v = (case v of None \<Rightarrow> Inl KeyError | Some x \<Rightarrow> Inr x)"

text \<open>
  What a handler answers.  The wording and the layout of the messages are not modelled; a
  reply says which message it is and carries the data that the message shows.
\<close>

datatype reply =
    AskDate | BadDateFormat | AskName | AskAmount | NeedNumber | AskFee | AskRate | BadRate
  | AskMembers | NeedMember | DealSaved deal
  | NoDeals | Report rat "deal list"
  | DeleteUsage | BadDate | BadNumber | NotFound | Deleted
  | MonthUsage | NoReply

definition start_deal :: "conv_state \<times> reply" where
  "start_deal = (DATE, AskDate)"






text \<open>
  \<^verbatim>\<open>re.findall(r"#\d+", raw)\<close>: the matches from left to right, none overlapping; each is
  a hash sign with all the digits that follow it.
\<close>

function findall_members :: "pystr \<Rightarrow> pystr list" where
  "findall_members [] = []"
| "findall_members (c # cs) =
     (if c = 35 \<and> takeWhile is_digit cs \<noteq> []
      then (c # takeWhile is_digit cs) # findall_members (dropWhile is_digit cs)
      else findall_members cs)"
  by pat_completeness auto
termination
  by (relation "measure length") (auto simp: length_dropWhile_le less_Suc_eq_le)

text \<open>
  The last step computes the derived amounts, numbers the deal and stores it.  The
  computation comes before the ledger is loaded, so an exception in it leaves the file as
  it was.
\<close>

definition get_members ::
  "user_data \<Rightarrow> save_file \<Rightarrow> pystr \<Rightarrow> py_error + conv_state \<times> save_file \<times> reply" where
  "get_members ud f txt =
     (let raw = strip txt;
          mems = findall_members raw
      in if mems = [] then Inr (MEMBERS, f, NeedMember)
         else
          (let total = int (length mems)
           in case lookup (ud_amount ud) of Inl e \<Rightarrow> Inl e | Inr rub' \<Rightarrow>
              (case lookup (ud_fee ud) of Inl e \<Rightarrow> Inl e | Inr fee' \<Rightarrow>
              (case lookup (ud_rate ud) of Inl e \<Rightarrow> Inl e | Inr rate' \<Rightarrow>
              (let clean_rub' = rub' - (rub' * fee' / 100)
               in case truediv clean_rub' rate' of Inl e \<Rightarrow> Inl e | Inr usd' \<Rightarrow>
              (let pool' = usd' * 0.25
               in case truediv pool' (of_int total) of Inl e \<Rightarrow> Inl e | Inr share' \<Rightarrow>
              (case lookup (ud_date ud) of Inl e \<Rightarrow> Inl e | Inr d \<Rightarrow>
              (let deals = load_deals f;
                   idx = get_next_index_for_date deals d
               in case lookup (ud_name ud) of Inl e \<Rightarrow> Inl e | Inr name' \<Rightarrow>
              (let new_deal = \<lparr>date_iso = d, index = idx, name = name', rub = rub', fee = fee',
                                rate = rate', clean_rub = clean_rub', usd = usd', pool = pool',
                                share = share', members = mems\<rparr>
               in Inr (END, save_deals (deals @ [new_deal]), DealSaved new_deal))))))))))"



section \<open>Reports\<close>

text \<open>
  \<^verbatim>\<open>show_report\<close>: the no-deals message when the range holds no deal, else the total of the
  shares, summed from left to right, with the deals that the lines of the report show.
\<close>

definition show_report :: "save_file \<Rightarrow> date \<Rightarrow> date \<Rightarrow> reply" where
  "show_report f start en =
     (let deals = filter_deals_by_date_range f start en
      in if deals = [] then NoDeals
         else Report (foldl (+) 0 (map share deals)) deals)"

definition show_week :: "clock \<Rightarrow> save_file \<Rightarrow> py_error + reply" where
  "show_week clk f =
     (case tuesday_week_range clk None of
        Inl e \<Rightarrow> Inl e
      | Inr (start, en) \<Rightarrow> Inr (show_report f start en))"

text \<open>The range that \<^verbatim>\<open>show_month\<close> computes from the year and the month.\<close>

definition month_range :: "int \<Rightarrow> int \<Rightarrow> py_error + date \<times> date" where
  "month_range y m =
     (case mk_date y m 1 of
        Inl e \<Rightarrow> Inl e
      | Inr start \<Rightarrow>
          if m = 12 then (case mk_date y 12 31 of Inl e \<Rightarrow> Inl e | Inr en \<Rightarrow> Inr (start, en))
          else (case mk_date y (m + 1) 1 of
                  Inl e \<Rightarrow> Inl e
                | Inr nxt \<Rightarrow>
                    (case date_sub_days nxt 1 of Inl e \<Rightarrow> Inl e | Inr en \<Rightarrow> Inr (start, en))))"

definition show_month :: "clock \<Rightarrow> save_file \<Rightarrow> pystr list \<Rightarrow> py_error + reply" where
  "show_month clk f args =
     (if args \<noteq> [] \<and> isdigit (hd args) then
        (let m = int_of_digits (hd args);
             y = year (utc_today clk)
         in case month_range y m of
              Inl e \<Rightarrow> Inl e
            | Inr (start, en) \<Rightarrow> Inr (show_report f start en))
      else Inr MonthUsage)"

section \<open>Deleting a deal\<close>

text \<open>
  \<^verbatim>\<open>delete_deal\<close> returns the file after the call and the reply.  \<^verbatim>\<open>del deals[i]\<close> removes
  the element at position \<open>i\<close>, which is the position of the first deal that matches.
\<close>

definition delete_deal :: "clock \<Rightarrow> save_file \<Rightarrow> pystr list \<Rightarrow> save_file \<times> reply" where
  "delete_deal clk f args =
     (if length args \<noteq> 2 then (f, DeleteUsage)
      else (case parse_date clk (args ! 0) of
              None \<Rightarrow> (f, BadDate)
            | Some d \<Rightarrow>
                (case py_int (args ! 1) of
                   None \<Rightarrow> (f, BadNumber)
                 | Some num \<Rightarrow>
                     (let deals = load_deals f;
                          filtered = filter (\<lambda>(i, x). date_iso x = d \<and> index x = num)
                                            (enumerate 0 deals)
                      in case filtered of
                           [] \<Rightarrow> (f, NotFound)
                         | (i, x) # rest \<Rightarrow>
                             (save_deals (take i deals @ drop (Suc i) deals), Deleted)))))"

section \<open>Auxiliary notions for the properties\<close>

text \<open>
  The deal that \<^verbatim>\<open>get_members\<close> builds from the collected fields: the date, the index,
  the name, the amount, the fee, the rate and the members.
\<close>

definition new_deal :: "date \<Rightarrow> int \<Rightarrow> pystr \<Rightarrow> rat \<Rightarrow> rat \<Rightarrow> rat \<Rightarrow> pystr list \<Rightarrow> deal" where
 "new_deal d idx nm A F R mems = \<lparr>date_iso = d, index = idx, name = nm, rub = A, fee = F,
     rate = R, clean_rub = A - (A * F / 100), usd = (A - (A * F / 100)) / R, pool = (A - (A * F / 100)) / R * 0.25,
     share = (A - (A * F / 100)) / R * 0.25 / of_int (int (length mems)), members = mems\<rparr>"

text \<open>
  A sequence of creations: each is the last step of the conversation, run on the file that
  the one before has left, with the user data that the earlier steps have collected and the
  text that names the members.  A step that raises, or that asks again, leaves the file.
\<close>

fun create_all :: "save_file \<Rightarrow> (user_data \<times> pystr) list \<Rightarrow> save_file" where
  "create_all f [] = f"
| "create_all f ((ud, t) # rest) =
     (case get_members ud f t of
        Inl e \<Rightarrow> create_all f rest
      | Inr (st, f', r) \<Rightarrow> create_all f' rest)"

text \<open>A sequence of delete commands, each given by its arguments.\<close>

fun delete_all :: "clock \<Rightarrow> save_file \<Rightarrow> pystr list list \<Rightarrow> save_file" where
  "delete_all clk f [] = f"
| "delete_all clk f (args # rest) = delete_all clk (fst (delete_deal clk f args)) rest"

text \<open>The pair by which \<^verbatim>\<open>delete_deal\<close> looks a deal up.\<close>

definition deal_key :: "deal \<Rightarrow> date \<times> int" where
  "deal_key x = (date_iso x, index x)"



text \<open>Data for the examples: a clock, the user data of a deal, and stored deals.\<close>

definition clk_ex :: clock where
  "clk_ex = \<lparr>utc_today = \<lparr>year = 2026, month = 11, day = 3\<rparr>, local_year = 2026\<rparr>"

definition ud_ex :: user_data where
  "ud_ex = \<lparr>ud_date = Some \<lparr>year = 2026, month = 7, day = 21\<rparr>, ud_name = Some (str ''QR''),
            ud_amount = Some 10000, ud_fee = Some 2, ud_rate = Some 90\<rparr>"

definition deal_ex :: "int \<Rightarrow> deal" where
  "deal_ex i = new_deal \<lparr>year = 2026, month = 7, day = 21\<rparr> i (str ''QR'') 10000 2 90 [str ''#1'']"

section \<open>Properties of the calendar\<close>

text \<open>
  The ordinal of a date and the date of an ordinal are inverse to each other on the dates
  from 0001-01-01 to 9999-12-31, and the order of the ordinals is the order of the dates.
\<close>

lemma month_day_ok:
  assumes "0 \<le> n" "n < (if lp then 366 else 365)" "month_day lp n = (m, d)"
  shows "1 \<le> m \<and> m \<le> 12 \<and> 1 \<le> d \<and> d \<le> (if m = 2 \<and> lp then 29 else DAYS_IN_MONTH ! nat m)
     \<and> DAYS_BEFORE_MONTH ! nat m + (if m > 2 \<and> lp then 1 else 0) + d = n + 1"
proof -
  define j where "j = (n + 50) div 32"
  have N: "32 * j - 50 \<le> n \<and> n < 32 * j - 18" unfolding j_def by arith
  have "1 \<le> j \<and> j \<le> 12" using assms(1,2) unfolding j_def by (cases lp) auto
  then have J: "j = 1 \<or> j = 2 \<or> j = 3 \<or> j = 4 \<or> j = 5 \<or> j = 6 \<or> j = 7 \<or> j = 8 \<or> j = 9 \<or> j = 10 \<or> j = 11 \<or> j = 12"
    by arith
  from J N assms show ?thesis
    unfolding month_day_def Let_def j_def[symmetric] DAYS_BEFORE_MONTH_def DAYS_IN_MONTH_def
    apply (elim disjE)
    apply (simp_all split: if_splits)
    done
qed

lemma cycles:
  fixes n' :: int
  assumes "0 \<le> n'"
  defines "a \<equiv> n' div 146097" and "r1 \<equiv> n' mod 146097"
  defines "b \<equiv> r1 div 36524" and "r2 \<equiv> r1 mod 36524"
  defines "c \<equiv> r2 div 1461" and "r3 \<equiv> r2 mod 1461"
  defines "e \<equiv> r3 div 365" and "k \<equiv> r3 mod 365"
  shows "n' = 146097 * a + 36524 * b + 1461 * c + 365 * e + k"
    and "0 \<le> a" "0 \<le> b" "b \<le> 4" "0 \<le> c" "c \<le> 24" "0 \<le> e" "e \<le> 4" "0 \<le> k" "k < 365"
    and "b = 4 \<Longrightarrow> c = 0 \<and> e = 0 \<and> k = 0"
    and "e = 4 \<Longrightarrow> k = 0 \<and> c \<le> 23"
proof -
  have 1: "n' = 146097 * a + r1" "0 \<le> r1" "r1 < 146097" unfolding a_def r1_def by auto
  have 2: "r1 = 36524 * b + r2" "0 \<le> r2" "r2 < 36524" unfolding b_def r2_def by auto
  have 3: "r2 = 1461 * c + r3" "0 \<le> r3" "r3 < 1461" unfolding c_def r3_def by auto
  have 4: "r3 = 365 * e + k" "0 \<le> k" "k < 365" unfolding e_def k_def by auto
  show "n' = 146097 * a + 36524 * b + 1461 * c + 365 * e + k" using 1 2 3 4 by simp
  show "0 \<le> a" using assms(1) unfolding a_def by (simp add: pos_imp_zdiv_nonneg_iff)
  show b0: "0 \<le> b" using 1 unfolding b_def by (simp add: pos_imp_zdiv_nonneg_iff)
  show b4: "b \<le> 4" using 1 2 by arith
  show c0: "0 \<le> c" using 2 unfolding c_def by (simp add: pos_imp_zdiv_nonneg_iff)
  show c24: "c \<le> 24" using 2 3 by arith
  show e0: "0 \<le> e" using 3 unfolding e_def by (simp add: pos_imp_zdiv_nonneg_iff)
  show "e \<le> 4" using 3 4 by arith
  show "0 \<le> k" "k < 365" using 4 by auto
  show "b = 4 \<Longrightarrow> c = 0 \<and> e = 0 \<and> k = 0" using 1 2 3 4 c0 e0 by arith
  show "e = 4 \<Longrightarrow> k = 0 \<and> c \<le> 23" using 2 3 4 c0 by arith
qed


lemma divmod_decomp:
  fixes q r k :: int
  assumes "0 \<le> r" "r < k"
  shows "(k * q + r) div k = q" and "(k * q + r) mod k = r"
  using assms by (simp_all add: div_pos_pos_trivial)

lemma dby_cycles:
  fixes a b c e :: int
  assumes "0 \<le> b" "b \<le> 3" "0 \<le> c" "c \<le> 24" "0 \<le> e" "e \<le> 3"
  shows "days_before_year (400 * a + 100 * b + 4 * c + e + 1) = 146097 * a + 36524 * b + 1461 * c + 365 * e"
proof -
  define Y where "Y = 400 * a + 100 * b + 4 * c + e"
  have "Y = 4 * (100 * a + 25 * b + c) + e" by (simp add: Y_def)
  then have d4: "Y div 4 = 100 * a + 25 * b + c" using divmod_decomp(1)[of e 4] assms by simp
  have "Y = 100 * (4 * a + b) + (4 * c + e)" by (simp add: Y_def)
  then have d100: "Y div 100 = 4 * a + b" using divmod_decomp(1)[of "4 * c + e" 100] assms by simp
  have "Y = 400 * a + (100 * b + 4 * c + e)" by (simp add: Y_def)
  then have d400: "Y div 400 = a" using divmod_decomp(1)[of "100 * b + 4 * c + e" 400] assms by simp
  have "days_before_year (Y + 1) = Y * 365 + Y div 4 - Y div 100 + Y div 400"
    by (simp add: days_before_year_def)
  also have "\<dots> = 146097 * a + 36524 * b + 1461 * c + 365 * e"
    unfolding d4 d100 d400 by (simp add: Y_def)
  finally show ?thesis by (simp add: Y_def)
qed

lemma leap_cycles:
  fixes a b c e :: int
  assumes "0 \<le> b" "b \<le> 3" "0 \<le> c" "c \<le> 24" "0 \<le> e" "e \<le> 3"
  shows "is_leap (400 * a + 100 * b + 4 * c + e + 1) \<longleftrightarrow> (e = 3 \<and> (c \<noteq> 24 \<or> b = 3))"
proof -
  define Y where "Y = 400 * a + 100 * b + 4 * c + e + 1"
  have "Y = 4 * (100 * a + 25 * b + c) + (e + 1)" by (simp add: Y_def)
  then have m4: "Y mod 4 = (e + 1) mod 4" by (metis mod_mult_self4)
  have "Y = 100 * (4 * a + b) + (4 * c + e + 1)" by (simp add: Y_def)
  then have m100: "Y mod 100 = (4 * c + e + 1) mod 100" by (metis mod_mult_self4)
  have "Y = 400 * a + (100 * b + 4 * c + e + 1)" by (simp add: Y_def)
  then have m400: "Y mod 400 = (100 * b + 4 * c + e + 1) mod 400" by (metis mod_mult_self4)
  have 1: "(e + 1) mod 4 = 0 \<longleftrightarrow> e = 3" using assms by arith
  have 2: "e = 3 \<Longrightarrow> (4 * c + e + 1) mod 100 = 0 \<longleftrightarrow> c = 24" using assms by arith
  have 3: "e = 3 \<Longrightarrow> c = 24 \<Longrightarrow> (100 * b + 4 * c + e + 1) mod 400 = 0 \<longleftrightarrow> b = 3" using assms by arith
  show ?thesis unfolding is_leap_def Y_def[symmetric] m4 m100 m400 using 1 2 3 by auto
qed

lemma ord2ymd_correct:
  assumes "1 \<le> n" "n \<le> MAXORDINAL" "ord2ymd n = (y, m, d)"
  shows "valid_date \<lparr>year = y, month = m, day = d\<rparr> \<and> ymd2ord y m d = n"
proof -
  define n' where "n' = n - 1"
  define a where "a \<equiv> n' div 146097" define r1 where "r1 \<equiv> n' mod 146097"
  define b where "b \<equiv> r1 div 36524" define r2 where "r2 \<equiv> r1 mod 36524"
  define c where "c \<equiv> r2 div 1461" define r3 where "r3 \<equiv> r2 mod 1461"
  define e where "e \<equiv> r3 div 365" define k where "k \<equiv> r3 mod 365"
  have n'0: "0 \<le> n'" using assms(1) by (simp add: n'_def)
  note C = cycles[OF n'0, folded a_def r1_def b_def r2_def c_def r3_def e_def k_def]
  have amax: "n' \<le> 3652058" using assms(2) by (simp add: n'_def MAXORDINAL_def)
  have O: "ord2ymd n = (if e = 4 \<or> b = 4 then (400 * a + 100 * b + 4 * c + e, 12, 31)
     else (let (m, d) = month_day (e = 3 \<and> (c \<noteq> 24 \<or> b = 3)) k in (400 * a + 100 * b + 4 * c + e + 1, m, d)))"
    unfolding ord2ymd_def Let_def DI400Y_def DI100Y_def DI4Y_def
      n'_def[symmetric] a_def[symmetric] r1_def[symmetric] b_def[symmetric] r2_def[symmetric]
      c_def[symmetric] r3_def[symmetric] e_def[symmetric] k_def[symmetric]
    by (simp add: algebra_simps)
  show ?thesis
  proof (cases "e = 4 \<or> b = 4")
    case True
    then have ymd: "y = 400 * a + 100 * b + 4 * c + e" "m = 12" "d = 31" using O assms(3) by auto
    have Y: "1 \<le> y \<and> y \<le> 9999" unfolding ymd using C amax True by arith
    have "is_leap y \<and> days_before_year y = n' - 365"
    proof (cases "b = 4")
      case b4: True
      then have z: "c = 0" "e = 0" "k = 0" using C by auto
      have yy: "y = 400 * a + 100 * 3 + 4 * 24 + 3 + 1" unfolding ymd z b4 by simp
      show ?thesis unfolding yy using leap_cycles[of 3 24 3 a] dby_cycles[of 3 24 3 a] C(1) z b4
        by simp
    next
      case b4: False
      then have e4: "e = 4" and b3: "b \<le> 3" using True C by auto
      then have z: "k = 0" "c \<le> 23" using C by auto
      have yy: "y = 400 * a + 100 * b + 4 * c + 3 + 1" unfolding ymd e4 by simp
      show ?thesis unfolding yy using leap_cycles[of b c 3 a] dby_cycles[of b c 3 a] C(1) C(3) C(5) z b3 e4
        by simp
    qed
    then show ?thesis using Y ymd
      by (simp add: valid_date_def ymd2ord_def days_in_month_def days_before_month_def MINYEAR_def
           MAXYEAR_def n'_def DAYS_IN_MONTH_def DAYS_BEFORE_MONTH_def)
  next
    case False
    then have b3: "b \<le> 3" and e3: "e \<le> 3" using C by auto
    define lp where "lp = (e = 3 \<and> (c \<noteq> 24 \<or> b = 3))"
    from False O assms(3) have md: "month_day lp k = (m, d)" and y: "y = 400 * a + 100 * b + 4 * c + e + 1"
      by (auto simp: lp_def split: prod.splits)
    have L: "is_leap y = lp" unfolding y lp_def using leap_cycles[OF C(3) b3 C(5) C(6) C(7) e3] .
    have D: "days_before_year y = n' - k" unfolding y using dby_cycles[OF C(3) b3 C(5) C(6) C(7) e3, of a] C(1) by simp
    have M: "1 \<le> m \<and> m \<le> 12 \<and> 1 \<le> d \<and> d \<le> (if m = 2 \<and> lp then 29 else DAYS_IN_MONTH ! nat m)
     \<and> DAYS_BEFORE_MONTH ! nat m + (if m > 2 \<and> lp then 1 else 0) + d = k + 1"
      using month_day_ok[OF C(9) _ md] C(10) by (cases lp) auto
    have Y: "1 \<le> y \<and> y \<le> 9999" unfolding y using C amax b3 e3 by arith
    show ?thesis using M Y D L
      by (auto simp: valid_date_def ymd2ord_def days_in_month_def days_before_month_def MINYEAR_def MAXYEAR_def n'_def)
  qed
qed


lemma div_step:
  fixes y k :: int
  assumes "1 < k"
  shows "y div k - (y - 1) div k = (if y mod k = 0 then 1 else 0)"
proof -
  define q where "q = y div k" define r where "r = y mod k"
  have y: "y = k * q + r" and r: "0 \<le> r" "r < k" using assms by (simp_all add: q_def r_def)
  show ?thesis
  proof (cases "r = 0")
    case True
    have "y - 1 = k * (q - 1) + (k - 1)" using y True by (simp add: algebra_simps)
    then have "(y - 1) div k = (k * (q - 1) + (k - 1)) div k" by (rule arg_cong)
    also have "\<dots> = q - 1"
      using assms by (simp add: div_pos_pos_trivial)
    finally have "(y - 1) div k = q - 1" .
    then show ?thesis using True unfolding q_def[symmetric] r_def[symmetric] by simp
  next
    case False
    have "y - 1 = k * q + (r - 1)" using y by simp
    then have "(y - 1) div k = (k * q + (r - 1)) div k" by (rule arg_cong)
    also have "\<dots> = q"
      using assms r False by (simp add: div_pos_pos_trivial)
    finally have "(y - 1) div k = q" .
    then show ?thesis using False unfolding q_def[symmetric] r_def[symmetric] by simp
  qed
qed


lemma dby_step: "days_before_year (y + 1) = days_before_year y + (if is_leap y then 366 else 365)"
proof -
  have a: "y mod 100 = 0" if "y mod 400 = 0"
  proof -
    have "(400::int) dvd y" using that by (simp add: mod_0_imp_dvd)
    moreover have "(100::int) dvd 400" by simp
    ultimately have "(100::int) dvd y" by (rule dvd_trans[rotated])
    then show ?thesis by simp
  qed
  have b: "y mod 4 = 0" if "y mod 100 = 0"
  proof -
    have "(100::int) dvd y" using that by (simp add: mod_0_imp_dvd)
    moreover have "(4::int) dvd 100" by simp
    ultimately have "(4::int) dvd y" by (rule dvd_trans[rotated])
    then show ?thesis by simp
  qed
  have s4: "y div 4 - (y - 1) div 4 = (if y mod 4 = 0 then 1 else 0)" by (rule div_step) simp
  have s100: "y div 100 - (y - 1) div 100 = (if y mod 100 = 0 then 1 else 0)" by (rule div_step) simp
  have s400: "y div 400 - (y - 1) div 400 = (if y mod 400 = 0 then 1 else 0)" by (rule div_step) simp
  have "days_before_year (y + 1) - days_before_year y
      = 365 + (y div 4 - (y - 1) div 4) - (y div 100 - (y - 1) div 100) + (y div 400 - (y - 1) div 400)"
    by (simp add: days_before_year_def Let_def)
  also have "\<dots> = 365 + (if y mod 4 = 0 then 1 else 0) - (if y mod 100 = 0 then 1 else 0)
       + (if y mod 400 = 0 then 1 else 0)"
    unfolding s4 s100 s400 ..
  also have "\<dots> = (if is_leap y then 366 else 365)"
  proof (cases "y mod 4 = 0")
    case True
    show ?thesis
    proof (cases "y mod 100 = 0")
      case h: True
      show ?thesis using True h by (cases "y mod 400 = 0") (simp_all add: is_leap_def)
    next
      case h: False
      have "y mod 400 \<noteq> 0"
      proof
        assume "y mod 400 = 0"
        from a[OF this] h show False by (rule notE[rotated])
      qed
      then show ?thesis using True h by (simp add: is_leap_def)
    qed
  next
    case False
    have n100: "y mod 100 \<noteq> 0"
    proof
      assume "y mod 100 = 0"
      from b[OF this] False show False by (rule notE[rotated])
    qed
    have "y mod 400 \<noteq> 0"
    proof
      assume "y mod 400 = 0"
      from a[OF this] n100 show False by (rule notE[rotated])
    qed
    with n100 have "y mod 100 \<noteq> 0" "y mod 400 \<noteq> 0" by blast+
    then show ?thesis using False by (simp add: is_leap_def)
  qed
  finally show ?thesis by simp
qed

lemma dby_mono: "y1 \<le> y2 \<Longrightarrow> days_before_year y1 \<le> days_before_year y2"
proof (induction y2 rule: int_ge_induct)
  case base
  show ?case by simp
next
  case (step i)
  then show ?case using dby_step[of i] by (simp split: if_splits)
qed

lemma month_cases:
  fixes m :: int
  assumes "1 \<le> m" "m \<le> 12"
  shows "m = 1 \<or> m = 2 \<or> m = 3 \<or> m = 4 \<or> m = 5 \<or> m = 6 \<or> m = 7 \<or> m = 8 \<or> m = 9 \<or> m = 10 \<or> m = 11 \<or> m = 12"
  using assms by arith

lemma dbm_next:
  assumes "1 \<le> m" "m \<le> 11"
  shows "days_before_month y (m + 1) = days_before_month y m + days_in_month y m"
proof -
  have "m = 1 \<or> m = 2 \<or> m = 3 \<or> m = 4 \<or> m = 5 \<or> m = 6 \<or> m = 7 \<or> m = 8 \<or> m = 9 \<or> m = 10 \<or> m = 11"
    using assms by arith
  then show ?thesis
    by (elim disjE) (simp_all add: days_before_month_def days_in_month_def DAYS_BEFORE_MONTH_def DAYS_IN_MONTH_def)
qed

lemma dbm_last: "days_before_month y 12 + days_in_month y 12 = (if is_leap y then 366 else 365)"
  by (simp add: days_before_month_def days_in_month_def DAYS_BEFORE_MONTH_def DAYS_IN_MONTH_def)

lemma dim_pos:
  assumes "1 \<le> m" "m \<le> 12"
  shows "28 \<le> days_in_month y m"
  using month_cases[OF assms]
  by (elim disjE) (simp_all add: days_in_month_def DAYS_IN_MONTH_def)

lemma dbm_mono:
  assumes "1 \<le> m1" "m1 \<le> m2" "m2 \<le> 12"
  shows "days_before_month y m1 \<le> days_before_month y m2"
  using assms(2,1,3)
proof (induction m2 rule: int_ge_induct)
  case base
  show ?case by simp
next
  case (step i)
  then show ?case using dbm_next[of i y] dim_pos[of i y] by simp
qed

lemma dbm_bounds:
  assumes "1 \<le> m" "m \<le> 12"
  shows "0 \<le> days_before_month y m"
    and "days_before_month y m + days_in_month y m \<le> (if is_leap y then 366 else 365)"
proof -
  have "days_before_month y 1 \<le> days_before_month y m" using dbm_mono[of 1 m y] assms by simp
  then show "0 \<le> days_before_month y m"
    by (simp add: days_before_month_def DAYS_BEFORE_MONTH_def)
  show "days_before_month y m + days_in_month y m \<le> (if is_leap y then 366 else 365)"
  proof (cases "m = 12")
    case True
    then show ?thesis using dbm_last[of y] by simp
  next
    case False
    then have "m \<le> 11" using assms by simp
    then have "days_before_month y m + days_in_month y m = days_before_month y (m + 1)"
      using dbm_next[of m y] assms by simp
    also have "\<dots> \<le> days_before_month y 12" using dbm_mono[of "m + 1" 12 y] assms \<open>m \<le> 11\<close> by simp
    also have "\<dots> \<le> (if is_leap y then 366 else 365)" using dbm_last[of y] dim_pos[of 12 y] by simp
    finally show ?thesis .
  qed
qed

lemma ymd2ord_less:
  assumes "1 \<le> m1" "m1 \<le> 12" "1 \<le> d1" "d1 \<le> days_in_month y1 m1"
      and "1 \<le> m2" "m2 \<le> 12" "1 \<le> d2" "d2 \<le> days_in_month y2 m2"
      and "y1 < y2 \<or> (y1 = y2 \<and> (m1 < m2 \<or> (m1 = m2 \<and> d1 < d2)))"
  shows "ymd2ord y1 m1 d1 < ymd2ord y2 m2 d2"
proof -
  consider "y1 < y2" | "y1 = y2" "m1 < m2" | "y1 = y2" "m1 = m2" "d1 < d2" using assms(9) by auto
  then show ?thesis
  proof cases
    case 1
    have "ymd2ord y1 m1 d1 \<le> days_before_year y1 + (if is_leap y1 then 366 else 365)"
      using dbm_bounds(2)[OF assms(1,2), of y1] assms(4) by (simp add: ymd2ord_def)
    also have "\<dots> = days_before_year (y1 + 1)" by (simp add: dby_step)
    also have "\<dots> \<le> days_before_year y2" using 1 by (intro dby_mono) simp
    also have "\<dots> < ymd2ord y2 m2 d2" using dbm_bounds(1)[OF assms(5,6), of y2] assms(7)
      by (simp add: ymd2ord_def)
    finally show ?thesis .
  next
    case 2
    have "days_before_month y1 m1 + d1 \<le> days_before_month y1 (m1 + 1)"
      using dbm_next[of m1 y1] assms 2 by simp
    also have "\<dots> \<le> days_before_month y1 m2" using dbm_mono[of "m1 + 1" m2 y1] assms 2 by simp
    finally show ?thesis using 2 assms(7) by (simp add: ymd2ord_def)
  next
    case 3
    then show ?thesis by (simp add: ymd2ord_def)
  qed
qed

lemma toordinal_le_iff:
  assumes "valid_date a" "valid_date b"
  shows "toordinal a \<le> toordinal b \<longleftrightarrow> date_le a b"
proof
  assume le: "toordinal a \<le> toordinal b"
  show "date_le a b"
  proof (rule ccontr)
    assume "\<not> date_le a b"
    then have "year b < year a \<or> (year b = year a \<and> (month b < month a \<or> (month b = month a \<and> day b < day a)))"
      unfolding date_le_def by auto
    then have "toordinal b < toordinal a" unfolding toordinal_def
      using assms by (intro ymd2ord_less) (auto simp: valid_date_def)
    with le show False by simp
  qed
next
  assume "date_le a b"
  then have "(year a = year b \<and> month a = month b \<and> day a = day b) \<or>
     (year a < year b \<or> (year a = year b \<and> (month a < month b \<or> (month a = month b \<and> day a < day b))))"
    unfolding date_le_def by auto
  then show "toordinal a \<le> toordinal b"
  proof
    assume "year a = year b \<and> month a = month b \<and> day a = day b"
    then show ?thesis by (simp add: toordinal_def)
  next
    assume "year a < year b \<or> (year a = year b \<and> (month a < month b \<or> (month a = month b \<and> day a < day b)))"
    then have "toordinal a < toordinal b" unfolding toordinal_def
      using assms by (intro ymd2ord_less) (auto simp: valid_date_def)
    then show ?thesis by simp
  qed
qed

lemma toordinal_range:
  assumes "valid_date a"
  shows "1 \<le> toordinal a" and "toordinal a \<le> MAXORDINAL"
proof -
  have v: "1 \<le> year a" "year a \<le> 9999" "1 \<le> month a" "month a \<le> 12" "1 \<le> day a"
      "day a \<le> days_in_month (year a) (month a)"
    using assms by (auto simp: valid_date_def MINYEAR_def MAXYEAR_def)
  have "days_before_year 1 \<le> days_before_year (year a)" using v by (intro dby_mono)
  then have "0 \<le> days_before_year (year a)" by (simp add: days_before_year_def)
  then show "1 \<le> toordinal a" using dbm_bounds(1)[OF v(3,4), of "year a"] v(5)
    by (simp add: toordinal_def ymd2ord_def)
  have "toordinal a \<le> days_before_year (year a) + (if is_leap (year a) then 366 else 365)"
    using dbm_bounds(2)[OF v(3,4), of "year a"] v(6) by (simp add: toordinal_def ymd2ord_def)
  also have "\<dots> = days_before_year (year a + 1)" by (simp add: dby_step)
  also have "\<dots> \<le> days_before_year 10000" using v by (intro dby_mono) simp
  also have "\<dots> = MAXORDINAL" by (simp add: days_before_year_def MAXORDINAL_def)
  finally show "toordinal a \<le> MAXORDINAL" .
qed

lemma toordinal_inj:
  assumes "valid_date a" "valid_date b" "toordinal a = toordinal b"
  shows "a = b"
proof -
  have "date_le a b" "date_le b a"
    using toordinal_le_iff[OF assms(1,2)] toordinal_le_iff[OF assms(2,1)] assms(3) by auto
  then have "year a = year b \<and> month a = month b \<and> day a = day b"
    unfolding date_le_def by auto
  then show ?thesis by simp
qed

lemma fromordinal_valid:
  assumes "1 \<le> n" "n \<le> MAXORDINAL"
  shows "valid_date (fromordinal n)" and "toordinal (fromordinal n) = n"
proof -
  obtain y m d where o: "ord2ymd n = (y, m, d)" by (cases "ord2ymd n") auto
  from ord2ymd_correct[OF assms o]
  show "valid_date (fromordinal n)" and "toordinal (fromordinal n) = n"
    by (simp_all add: fromordinal_def o toordinal_def)
qed

lemma fromordinal_toordinal:
  assumes "valid_date a"
  shows "fromordinal (toordinal a) = a"
  using toordinal_inj[OF fromordinal_valid(1)[OF toordinal_range[OF assms]] assms
                         fromordinal_valid(2)[OF toordinal_range[OF assms]]] .



section \<open>The ledger file\<close>


section \<open>The payroll week\<close>





section \<open>The range of a month\<close>

text \<open>
  C8: for every year of the calendar and every month from 1 to 12, the range that
  \<^verbatim>\<open>show_month\<close> computes runs from the first to the last day of the month; for December
  the end is the 31st, for another month it is the day before the first of the next month;
  month 12 gives the 1st to the 31st of December and month 4 the 1st to the 30th of April.
  \<^verbatim>\<open>show_month\<close> reports on this range when its argument is the numeral of the month.
\<close>

theorem month_range_first_last:
  assumes "1 \<le> Y" "Y \<le> 9999" "1 \<le> m" "m \<le> 12"
  shows "month_range Y m = Inr (\<lparr>year = Y, month = m, day = 1\<rparr>,
                              \<lparr>year = Y, month = m, day = days_in_month Y m\<rparr>) \<and>
         (m = 12 \<longrightarrow> days_in_month Y m = 31) \<and>
         (m < 12 \<longrightarrow> date_sub_days \<lparr>year = Y, month = m + 1, day = 1\<rparr> 1
                       = Inr \<lparr>year = Y, month = m, day = days_in_month Y m\<rparr>) \<and>
         month_range Y 12 = Inr (\<lparr>year = Y, month = 12, day = 1\<rparr>,
                                 \<lparr>year = Y, month = 12, day = 31\<rparr>) \<and>
         month_range Y 4 = Inr (\<lparr>year = Y, month = 4, day = 1\<rparr>,
                                \<lparr>year = Y, month = 4, day = 30\<rparr>) \<and>
         (isdigit a \<and> int_of_digits a = m \<and> year (utc_today clk) = Y \<longrightarrow>
            show_month clk f (a # args)
              = Inr (show_report f \<lparr>year = Y, month = m, day = 1\<rparr>
                       \<lparr>year = Y, month = m, day = days_in_month Y m\<rparr>))"
proof -
  have sub: "date_sub_days \<lparr>year = Y, month = k + 1, day = 1\<rparr> 1
               = Inr \<lparr>year = Y, month = k, day = days_in_month Y k\<rparr>"
    if k: "1 \<le> k" "k \<le> 11" for k
  proof -
    have "28 \<le> days_in_month Y k" using dim_pos[of k Y] k by simp
    then have vl: "valid_date \<lparr>year = Y, month = k, day = days_in_month Y k\<rparr>"
      using assms k by (simp add: valid_date_def MINYEAR_def MAXYEAR_def)
    have o: "toordinal \<lparr>year = Y, month = k + 1, day = 1\<rparr> - 1
           = toordinal \<lparr>year = Y, month = k, day = days_in_month Y k\<rparr>"
      using dbm_next[OF k, of Y] by (simp add: toordinal_def ymd2ord_def)
    show ?thesis
      using toordinal_range[OF vl] fromordinal_toordinal[OF vl] o
      by (simp add: date_sub_days_def date_add_days_def Let_def)
  qed
  have first: "mk_date Y k 1 = Inr \<lparr>year = Y, month = k, day = 1\<rparr>"
    if k: "1 \<le> k" "k \<le> 12" for k
  proof -
    have "28 \<le> days_in_month Y k" using dim_pos[OF k] .
    then show ?thesis using assms k by (simp add: mk_date_def MINYEAR_def MAXYEAR_def)
  qed
  have dec: "mk_date Y 12 31 = Inr \<lparr>year = Y, month = 12, day = 31\<rparr>"
    using assms by (simp add: mk_date_def MINYEAR_def MAXYEAR_def days_in_month_def
        DAYS_IN_MONTH_def)
  have d12: "days_in_month Y 12 = 31" and d4: "days_in_month Y 4 = 30"
    by (simp_all add: days_in_month_def DAYS_IN_MONTH_def)
  have range: "month_range Y k = Inr (\<lparr>year = Y, month = k, day = 1\<rparr>,
                              \<lparr>year = Y, month = k, day = days_in_month Y k\<rparr>)"
    if k: "1 \<le> k" "k \<le> 12" for k
  proof (cases "k = 12")
    case True
    then show ?thesis using first[of 12] dec d12 by (simp add: month_range_def)
  next
    case False
    then have k11: "k \<le> 11" using k by simp
    show ?thesis
      using first[OF k] first[of "k + 1"] sub[OF k(1) k11] k k11 False
      by (simp add: month_range_def)
  qed
  have 1: "month_range Y m = Inr (\<lparr>year = Y, month = m, day = 1\<rparr>,
                              \<lparr>year = Y, month = m, day = days_in_month Y m\<rparr>)"
    using range[OF assms(3,4)] .
  have 2: "m = 12 \<longrightarrow> days_in_month Y m = 31" using d12 by simp
  have 3: "m < 12 \<longrightarrow> date_sub_days \<lparr>year = Y, month = m + 1, day = 1\<rparr> 1
                       = Inr \<lparr>year = Y, month = m, day = days_in_month Y m\<rparr>"
    using sub[of m] assms by simp
  have 4: "month_range Y 12 = Inr (\<lparr>year = Y, month = 12, day = 1\<rparr>,
                                 \<lparr>year = Y, month = 12, day = 31\<rparr>)"
    using range[of 12] d12 by simp
  have 5: "month_range Y 4 = Inr (\<lparr>year = Y, month = 4, day = 1\<rparr>,
                                \<lparr>year = Y, month = 4, day = 30\<rparr>)"
    using range[of 4] d4 by simp
  have 6: "isdigit a \<and> int_of_digits a = m \<and> year (utc_today clk) = Y \<longrightarrow>
            show_month clk f (a # args)
              = Inr (show_report f \<lparr>year = Y, month = m, day = 1\<rparr>
                       \<lparr>year = Y, month = m, day = days_in_month Y m\<rparr>)"
    using 1 by (simp add: show_month_def Let_def)
  show ?thesis using 1 2 3 4 5 6 by blast
qed

theorem month_range_first_last_witness:
  "month_range 2024 2 = Inr (\<lparr>year = 2024, month = 2, day = 1\<rparr>,
                             \<lparr>year = 2024, month = 2, day = 29\<rparr>) \<and>
   date_sub_days \<lparr>year = 2024, month = 3, day = 1\<rparr> 1 = Inr \<lparr>year = 2024, month = 2, day = 29\<rparr> \<and>
   show_month \<lparr>utc_today = \<lparr>year = 2024, month = 7, day = 21\<rparr>, local_year = 2024\<rparr> Absent
     [str ''02''] = Inr NoDeals"
proof -
  have d: "days_in_month 2024 2 = 29" by (simp add: days_in_month_def is_leap_def)
  have a: "isdigit (str ''02'') \<and> int_of_digits (str ''02'') = 2"
    by (simp add: isdigit_def str_def is_digit_def int_of_digits_def)
  have r: "show_report Absent x y = NoDeals" for x y
    by (simp add: show_report_def filter_deals_by_date_range_def load_deals_def)
  from month_range_first_last[of 2024 2 "str ''02''"
      "\<lparr>utc_today = \<lparr>year = 2024, month = 7, day = 21\<rparr>, local_year = 2024\<rparr>" Absent "[]"]
  show ?thesis using a by (simp add: d r)
qed

section \<open>Creating a deal\<close>

lemmas text_eval = str_def strip_def is_space_def lower_def lower_cp_def is_digit_def
  int_of_digits_def isdigit_def replace_comma_def digitpart_def opt_sign_def

lemma get_members_unfold:
  "get_members ud f t =
     (if findall_members (strip t) = [] then Inr (MEMBERS, f, NeedMember)
      else case ud_amount ud of None \<Rightarrow> Inl KeyError | Some A \<Rightarrow>
       (case ud_fee ud of None \<Rightarrow> Inl KeyError | Some F \<Rightarrow>
       (case ud_rate ud of None \<Rightarrow> Inl KeyError | Some R \<Rightarrow>
         if R = 0 then Inl ZeroDivisionError else
       (case ud_date ud of None \<Rightarrow> Inl KeyError | Some d \<Rightarrow>
       (case ud_name ud of None \<Rightarrow> Inl KeyError | Some nm \<Rightarrow>
          Inr (END,
               Stored (load_deals f @ [new_deal d (get_next_index_for_date (load_deals f) d) nm A F R
                                         (findall_members (strip t))]),
               DealSaved (new_deal d (get_next_index_for_date (load_deals f) d) nm A F R
                            (findall_members (strip t)))))))))"
  by (simp add: get_members_def lookup_def truediv_def Let_def new_deal_def save_deals_def split: option.splits)

lemma get_members_END:
  assumes "get_members ud f t = Inr (END, f', r)"
  shows "\<exists>A F R d nm. ud_amount ud = Some A \<and> ud_fee ud = Some F \<and> ud_rate ud = Some R \<and> R \<noteq> 0 \<and>
           ud_date ud = Some d \<and> ud_name ud = Some nm \<and> findall_members (strip t) \<noteq> [] \<and>
           f' = Stored (load_deals f @ [new_deal d (get_next_index_for_date (load_deals f) d) nm A F R (findall_members (strip t))]) \<and>
           r = DealSaved (new_deal d (get_next_index_for_date (load_deals f) d) nm A F R (findall_members (strip t)))"
  using assms unfolding get_members_unfold
  by (auto simp: Let_def split: if_splits option.splits)

lemma get_members_Inr:
  assumes "get_members ud f t = Inr (st, f', r)"
  shows "(st = MEMBERS \<and> f' = f) \<or> st = END"
  using assms unfolding get_members_unfold
  by (auto simp: Let_def split: if_splits option.splits)

lemma get_members_file:
  "(case get_members ud f t of Inl e \<Rightarrow> f | Inr (st, f', r) \<Rightarrow> f') = f \<or>
   (\<exists>d nm A F R mems. (case get_members ud f t of Inl e \<Rightarrow> f | Inr (st, f', r) \<Rightarrow> f')
       = Stored (load_deals f @ [new_deal d (get_next_index_for_date (load_deals f) d) nm A F R mems]))"
proof (cases "get_members ud f t")
  case (Inl e)
  then show ?thesis by simp
next
  case (Inr p)
  obtain st f' r where p: "p = (st, f', r)" by (cases p)
  from get_members_Inr[of ud f t st f' r] Inr p
  consider "st = MEMBERS" "f' = f" | "st = END" by auto
  then show ?thesis
  proof cases
    case 1
    then show ?thesis using Inr p by simp
  next
    case 2
    from Inr p 2 have "get_members ud f t = Inr (END, f', r)" by simp
    from get_members_END[OF this] obtain A F R d nm where
      "f' = Stored (load_deals f @ [new_deal d (get_next_index_for_date (load_deals f) d) nm A F R
               (findall_members (strip t))])"
      by blast
    then have "(case get_members ud f t of Inl e \<Rightarrow> f | Inr (st, f', r) \<Rightarrow> f')
       = Stored (load_deals f @ [new_deal d (get_next_index_for_date (load_deals f) d) nm A F R
               (findall_members (strip t))])"
      using Inr p by simp
    then show ?thesis by blast
  qed
qed



lemma upt_shift: "map g [Suc 0..<Suc (Suc n)] = g (Suc 0) # map (\<lambda>i. g (Suc i)) [Suc 0..<Suc n]"
proof -
  have "[Suc 0..<Suc (Suc n)] = Suc 0 # map Suc [Suc 0..<Suc n]"
    by (simp add: map_Suc_upt upt_conv_Cons del: upt_Suc)
  then show ?thesis by (simp add: comp_def del: upt_Suc)
qed

lemma create_all_dense:
  "\<exists>news. load_deals (create_all f cs) = load_deals f @ news \<and>
     (\<forall>d. map index (filter (\<lambda>x. date_iso x = d) news)
        = map (\<lambda>i. int (length (filter (\<lambda>x. date_iso x = d) (load_deals f))) + int i)
              [1..<Suc (length (filter (\<lambda>x. date_iso x = d) news))])"
proof (induction cs arbitrary: f)
  case Nil
  show ?case by simp
next
  case (Cons c cs)
  obtain ud t where c: "c = (ud, t)" by (cases c)
  define f1 where "f1 = (case get_members ud f t of Inl e \<Rightarrow> f | Inr (st, f', r) \<Rightarrow> f')"
  have step: "create_all f (c # cs) = create_all f1 cs"
    by (simp add: c f1_def split: sum.splits prod.splits)
  from Cons.IH[of f1] obtain news where
    n: "load_deals (create_all f1 cs) = load_deals f1 @ news"
       "\<And>d. map index (filter (\<lambda>x. date_iso x = d) news)
        = map (\<lambda>i. int (length (filter (\<lambda>x. date_iso x = d) (load_deals f1))) + int i)
              [1..<Suc (length (filter (\<lambda>x. date_iso x = d) news))]"
    by blast
  from get_members_file[where ud = ud and f = f and t = t, folded f1_def]
  consider "f1 = f" | d0 nm A F R mems where
      "f1 = Stored (load_deals f @ [new_deal d0 (get_next_index_for_date (load_deals f) d0) nm A F R mems])"
    by blast
  then show ?case
  proof cases
    case 1
    then show ?thesis using n step by auto
  next
    case 2
    define nd where "nd = new_deal d0 (get_next_index_for_date (load_deals f) d0) nm A F R mems"
    have l1: "load_deals f1 = load_deals f @ [nd]" using 2 by (simp add: nd_def load_deals_def)
    have nd: "date_iso nd = d0" "index nd = int (length (filter (\<lambda>x. date_iso x = d0) (load_deals f))) + 1"
      by (simp_all add: nd_def new_deal_def get_next_index_for_date_def)
    have "load_deals (create_all f (c # cs)) = load_deals f @ (nd # news)"
      using step n(1) l1 by simp
    moreover have "map index (filter (\<lambda>x. date_iso x = d) (nd # news))
        = map (\<lambda>i. int (length (filter (\<lambda>x. date_iso x = d) (load_deals f))) + int i)
              [1..<Suc (length (filter (\<lambda>x. date_iso x = d) (nd # news)))]" for d
    proof (cases "d0 = d")
      case True
      show ?thesis using n(2)[of d] nd True
        by (simp add: l1 upt_shift ac_simps del: upt_Suc)
    next
      case False
      show ?thesis using n(2)[of d] nd False
        by (simp add: l1 del: upt_Suc)
    qed
    ultimately show ?thesis by blast
  qed
qed

lemma parse_ex: "parse_date clk_ex (str ''21.07'') = Some \<lparr>year = 2026, month = 7, day = 21\<rparr>"
  by (simp add: parse_date_def text_eval match_day_month_def mk_date_def MINYEAR_def MAXYEAR_def
      days_in_month_def DAYS_IN_MONTH_def clk_ex_def kw_today_def kw_segodnya_def Let_def)

lemma int_ex: "py_int (str ''1'') = Some 1"
  by (simp add: py_int_def text_eval)

lemma int5_ex: "py_int (str ''5'') = Some 5"
  by (simp add: py_int_def text_eval)

lemma findall_ex: "findall_members (strip (str ''#1'')) = [str ''#1'']"
  "findall_members (strip (str ''#2'')) = [str ''#2'']"
  "findall_members (strip (str ''#3'')) = [str ''#3'']"
  by (simp_all add: text_eval)






section \<open>Deleting\<close>

lemma filter_enumerate_none:
  assumes "\<forall>x\<in>set xs. \<not> P x"
  shows "filter (\<lambda>(i, x). P x) (enumerate n xs) = []"
  using assms by (auto simp: filter_empty_conv in_set_enumerate_eq)

lemma filter_enumerate_first:
  assumes "\<forall>y\<in>set pre. \<not> P y" "P x"
  shows "filter (\<lambda>(i, x). P x) (enumerate n (pre @ x # post))
         = (n + length pre, x) # filter (\<lambda>(i, x). P x) (enumerate (Suc (n + length pre)) post)"
  using assms by (simp add: enumerate_append_eq filter_enumerate_none)

lemma delete_deal_unfold:
  assumes "parse_date clk a0 = Some d" "py_int a1 = Some num"
  shows "delete_deal clk f [a0, a1] =
     (case filter (\<lambda>(i, x). date_iso x = d \<and> index x = num) (enumerate 0 (load_deals f)) of
        [] \<Rightarrow> (f, NotFound)
      | (i, x) # rest \<Rightarrow> (Stored (take i (load_deals f) @ drop (Suc i) (load_deals f)), Deleted))"
  using assms by (simp add: delete_deal_def Let_def save_deals_def)

text \<open>
  C3: for a date and a number that parse, when no stored deal has that date and index the
  file is returned as it was, without a write, with the reply not found; when some deal
  has, the ledger is written without the first such deal, and every other deal stays as it
  was, in its place and with its index.
\<close>

theorem delete_deal_first_match:
  assumes "parse_date clk a0 = Some d" "py_int a1 = Some num"
  shows "((\<forall>x\<in>set (load_deals f). \<not> (date_iso x = d \<and> index x = num)) \<longrightarrow>
            delete_deal clk f [a0, a1] = (f, NotFound)) \<and>
         ((\<exists>x\<in>set (load_deals f). date_iso x = d \<and> index x = num) \<longrightarrow>
            (\<exists>pre x post. load_deals f = pre @ x # post \<and> date_iso x = d \<and> index x = num \<and>
               (\<forall>y\<in>set pre. \<not> (date_iso y = d \<and> index y = num)) \<and>
               delete_deal clk f [a0, a1] = (Stored (pre @ post), Deleted)))"
proof (intro conjI impI)
  assume "\<forall>x\<in>set (load_deals f). \<not> (date_iso x = d \<and> index x = num)"
  then show "delete_deal clk f [a0, a1] = (f, NotFound)"
    unfolding delete_deal_unfold[OF assms]
    by (simp add: filter_enumerate_none[where P = "\<lambda>x. date_iso x = d \<and> index x = num"])
next
  assume "\<exists>x\<in>set (load_deals f). date_iso x = d \<and> index x = num"
  from split_list_first_prop[OF this] obtain pre x post where
    s: "load_deals f = pre @ x # post" "date_iso x = d \<and> index x = num"
       "\<forall>y\<in>set pre. \<not> (date_iso y = d \<and> index y = num)"
    by blast
  have "delete_deal clk f [a0, a1] = (Stored (pre @ post), Deleted)"
    unfolding delete_deal_unfold[OF assms] s(1)
    using filter_enumerate_first[where P = "\<lambda>x. date_iso x = d \<and> index x = num", OF s(3) s(2), of 0 post]
    by simp
  then show "\<exists>pre x post. load_deals f = pre @ x # post \<and> date_iso x = d \<and> index x = num \<and>
               (\<forall>y\<in>set pre. \<not> (date_iso y = d \<and> index y = num)) \<and>
               delete_deal clk f [a0, a1] = (Stored (pre @ post), Deleted)"
    using s by blast
qed

theorem delete_deal_first_match_witness:
  "(\<exists>pre x post. load_deals (Stored [deal_ex 1, deal_ex 2]) = pre @ x # post \<and>
       date_iso x = \<lparr>year = 2026, month = 7, day = 21\<rparr> \<and> index x = 1 \<and>
       (\<forall>y\<in>set pre. \<not> (date_iso y = \<lparr>year = 2026, month = 7, day = 21\<rparr> \<and> index y = 1)) \<and>
       delete_deal clk_ex (Stored [deal_ex 1, deal_ex 2]) [str ''21.07'', str ''1'']
         = (Stored (pre @ post), Deleted)) \<and>
   delete_deal clk_ex (Stored [deal_ex 1, deal_ex 2]) [str ''21.07'', str ''1'']
     = (Stored [deal_ex 2], Deleted) \<and>
   delete_deal clk_ex (Stored [deal_ex 1, deal_ex 2]) [str ''21.07'', str ''5'']
     = (Stored [deal_ex 1, deal_ex 2], NotFound) \<and>
   delete_deal clk_ex Absent [str ''21.07'', str ''5''] = (Absent, NotFound)"
proof -
  have a: "\<exists>x\<in>set (load_deals (Stored [deal_ex 1, deal_ex 2])).
             date_iso x = \<lparr>year = 2026, month = 7, day = 21\<rparr> \<and> index x = 1"
    by (simp add: load_deals_def deal_ex_def new_deal_def)
  have b: "\<forall>x\<in>set (load_deals (Stored [deal_ex 1, deal_ex 2])).
             \<not> (date_iso x = \<lparr>year = 2026, month = 7, day = 21\<rparr> \<and> index x = 5)"
    by (simp add: load_deals_def deal_ex_def new_deal_def)
  have c: "\<forall>x\<in>set (load_deals Absent).
             \<not> (date_iso x = \<lparr>year = 2026, month = 7, day = 21\<rparr> \<and> index x = 5)"
    by (simp add: load_deals_def)
  have 1: "\<exists>pre x post. load_deals (Stored [deal_ex 1, deal_ex 2]) = pre @ x # post \<and>
       date_iso x = \<lparr>year = 2026, month = 7, day = 21\<rparr> \<and> index x = 1 \<and>
       (\<forall>y\<in>set pre. \<not> (date_iso y = \<lparr>year = 2026, month = 7, day = 21\<rparr> \<and> index y = 1)) \<and>
       delete_deal clk_ex (Stored [deal_ex 1, deal_ex 2]) [str ''21.07'', str ''1'']
         = (Stored (pre @ post), Deleted)"
    using delete_deal_first_match[OF parse_ex int_ex, of "Stored [deal_ex 1, deal_ex 2]"] a by blast
  have 2: "delete_deal clk_ex (Stored [deal_ex 1, deal_ex 2]) [str ''21.07'', str ''1'']
     = (Stored [deal_ex 2], Deleted)"
    by (simp add: delete_deal_unfold[OF parse_ex int_ex] load_deals_def deal_ex_def new_deal_def
        enumerate_eq_zip)
  have 3: "delete_deal clk_ex (Stored [deal_ex 1, deal_ex 2]) [str ''21.07'', str ''5'']
     = (Stored [deal_ex 1, deal_ex 2], NotFound)"
    using delete_deal_first_match[OF parse_ex int5_ex, of "Stored [deal_ex 1, deal_ex 2]"] b by blast
  have 4: "delete_deal clk_ex Absent [str ''21.07'', str ''5''] = (Absent, NotFound)"
    using delete_deal_first_match[OF parse_ex int5_ex, of Absent] c by blast
  show ?thesis using 1 2 3 4 by blast
qed

section \<open>The index as a key\<close>

lemma distinct_keys_by_date:
  assumes "\<And>d. distinct (map index (filter (\<lambda>x. date_iso x = d) xs))"
  shows "distinct (map deal_key xs)"
  using assms
proof (induction xs)
  case Nil
  show ?case by simp
next
  case (Cons a xs)
  have "distinct (map index (filter (\<lambda>x. date_iso x = d) xs))" for d
    using Cons.prems[of d] by (cases "date_iso a = d") simp_all
  then have "distinct (map deal_key xs)" by (rule Cons.IH)
  moreover have "deal_key a \<notin> set (map deal_key xs)"
    using Cons.prems[of "date_iso a"] by (auto simp: deal_key_def)
  ultimately show ?case by simp
qed

lemma delete_deal_sublist:
  "\<exists>pre post mid. load_deals f = pre @ mid @ post \<and> load_deals (fst (delete_deal clk f args)) = pre @ post"
proof -
  let ?L = "load_deals f"
  have "fst (delete_deal clk f args) = f \<or>
        (\<exists>i. fst (delete_deal clk f args) = Stored (take i ?L @ drop (Suc i) ?L))"
    by (auto simp: delete_deal_def Let_def save_deals_def split: option.splits list.splits)
  then show ?thesis
  proof
    assume "fst (delete_deal clk f args) = f"
    then have "?L = ?L @ [] @ [] \<and> load_deals (fst (delete_deal clk f args)) = ?L @ []" by simp
    then show ?thesis by blast
  next
    assume "\<exists>i. fst (delete_deal clk f args) = Stored (take i ?L @ drop (Suc i) ?L)"
    then obtain i where i: "fst (delete_deal clk f args) = Stored (take i ?L @ drop (Suc i) ?L)" by blast
    have "?L = take i ?L @ (take 1 (drop i ?L)) @ drop (Suc i) ?L"
      by (metis append_take_drop_id drop_drop plus_1_eq_Suc add.commute)
    moreover have "load_deals (fst (delete_deal clk f args)) = take i ?L @ drop (Suc i) ?L"
      using i by (simp add: load_deals_def)
    ultimately show ?thesis by blast
  qed
qed

lemma delete_all_distinct:
  assumes "distinct (map deal_key (load_deals f))"
  shows "distinct (map deal_key (load_deals (delete_all clk f dels)))"
  using assms
proof (induction dels arbitrary: f)
  case Nil
  then show ?case by simp
next
  case (Cons a dels)
  from delete_deal_sublist[of f clk a] obtain pre post mid where
    "load_deals f = pre @ mid @ post" "load_deals (fst (delete_deal clk f a)) = pre @ post"
    by blast
  then have "distinct (map deal_key (load_deals (fst (delete_deal clk f a))))"
    using Cons.prems by auto
  from Cons.IH[OF this] show ?case by simp
qed

text \<open>
  C4 does not hold of the code: two deals are created on a date, the first is deleted, a
  third is created on the date.  One deal of the date is left, so the third receives the
  index 2, which the second already has: the ledger holds two deals with the same date and
  index, and \<^verbatim>\<open>delete_deal\<close> with that date and index reaches the older one only.
\<close>

theorem create_after_delete_duplicate:
  "map deal_key (load_deals (create_all
       (fst (delete_deal clk_ex (create_all Absent [(ud_ex, str ''#1''), (ud_ex, str ''#2'')])
               [str ''21.07'', str ''1'']))
       [(ud_ex, str ''#3'')]))
   = [(\<lparr>year = 2026, month = 7, day = 21\<rparr>, 2), (\<lparr>year = 2026, month = 7, day = 21\<rparr>, 2)] \<and>
   \<not> distinct (map deal_key (load_deals (create_all
       (fst (delete_deal clk_ex (create_all Absent [(ud_ex, str ''#1''), (ud_ex, str ''#2'')])
               [str ''21.07'', str ''1'']))
       [(ud_ex, str ''#3'')])))"
  by (simp add: get_members_unfold delete_deal_unfold[OF parse_ex int_ex] findall_ex ud_ex_def
      load_deals_def get_next_index_for_date_def new_deal_def deal_key_def Let_def enumerate_eq_zip)

text \<open>
  As long as no creation follows a deletion, date and index are a key: in every ledger
  reached from an empty one by creations followed by deletions, no two deals have the same
  date and index.
\<close>

theorem unique_after_creates_then_deletes:
  assumes "load_deals f0 = []"
  shows "distinct (map deal_key (load_deals (delete_all clk (create_all f0 cs) dels)))"
proof -
  from create_all_dense[of f0 cs] assms obtain news where
    n: "load_deals (create_all f0 cs) = news"
       "\<And>d. map index (filter (\<lambda>x. date_iso x = d) news)
            = map (\<lambda>i. int i) [1..<Suc (length (filter (\<lambda>x. date_iso x = d) news))]"
    by auto
  have "distinct (map index (filter (\<lambda>x. date_iso x = d) news))" for d
    unfolding n(2)[of d] by (simp add: distinct_map del: upt_Suc)
  then have "distinct (map deal_key news)" by (rule distinct_keys_by_date)
  then show ?thesis using n(1) by (intro delete_all_distinct) simp
qed

theorem unique_after_creates_then_deletes_witness:
  "load_deals Absent = [] \<and>
   distinct (map deal_key (load_deals (delete_all clk_ex
      (create_all Absent [(ud_ex, str ''#1''), (ud_ex, str ''#2''), (ud_ex, str ''#3'')])
      [[str ''21.07'', str ''1'']])))"
proof -
  have e: "load_deals Absent = []" by (simp add: load_deals_def)
  from unique_after_creates_then_deletes[OF e] e show ?thesis by blast
qed

section \<open>Parsing a date\<close>









section \<open>Reports over a range\<close>

lemma foldl_add_sum: "foldl (+) a xs = a + sum_list (xs :: rat list)"
  by (induction xs arbitrary: a) (simp_all add: add.assoc)

text \<open>
  C7: the range filter returns the deals of the ledger whose date lies between the two
  bounds, both included, in the order of the ledger, and no deal when none lies there.  The
  report on an empty result is the no-deals reply, which is no report of a total; the sum
  over the empty result is 0.  The report on another result carries the sum of the shares
  of its deals.  The order of the bounds is the order of the calendar: that of the days
  counted from 0001-01-01.
\<close>

theorem range_filter_and_report:
  "filter_deals_by_date_range f start en
     = filter (\<lambda>x. date_le start (date_iso x) \<and> date_le (date_iso x) en) (load_deals f) \<and>
   ((\<forall>x\<in>set (load_deals f). \<not> (date_le start (date_iso x) \<and> date_le (date_iso x) en)) \<longrightarrow>
      filter_deals_by_date_range f start en = []) \<and>
   (filter_deals_by_date_range f start en = [] \<longrightarrow>
      show_report f start en = NoDeals \<and>
      sum_list (map share (filter_deals_by_date_range f start en)) = 0) \<and>
   (filter_deals_by_date_range f start en \<noteq> [] \<longrightarrow>
      show_report f start en
        = Report (sum_list (map share (filter_deals_by_date_range f start en)))
                 (filter_deals_by_date_range f start en)) \<and>
   (\<forall>total ds. NoDeals \<noteq> Report total ds) \<and>
   (valid_date a \<and> valid_date b \<longrightarrow> (date_le a b \<longleftrightarrow> toordinal a \<le> toordinal b))"
  using toordinal_le_iff[of a b]
  by (auto simp: filter_deals_by_date_range_def show_report_def Let_def foldl_add_sum
      filter_empty_conv)

theorem range_filter_and_report_witness:
  "filter_deals_by_date_range (Stored [deal_ex 1, deal_ex 2])
      \<lparr>year = 2026, month = 7, day = 21\<rparr> \<lparr>year = 2026, month = 7, day = 21\<rparr>
     = [deal_ex 1, deal_ex 2] \<and>
   show_report (Stored [deal_ex 1, deal_ex 2])
      \<lparr>year = 2026, month = 7, day = 21\<rparr> \<lparr>year = 2026, month = 7, day = 21\<rparr>
     = Report (490 / 9) [deal_ex 1, deal_ex 2] \<and>
   filter_deals_by_date_range (Stored [deal_ex 1, deal_ex 2])
      \<lparr>year = 2026, month = 7, day = 22\<rparr> \<lparr>year = 2026, month = 8, day = 21\<rparr> = [] \<and>
   show_report (Stored [deal_ex 1, deal_ex 2])
      \<lparr>year = 2026, month = 7, day = 22\<rparr> \<lparr>year = 2026, month = 8, day = 21\<rparr> = NoDeals \<and>
   toordinal \<lparr>year = 2026, month = 7, day = 22\<rparr> \<le> toordinal \<lparr>year = 2026, month = 8, day = 21\<rparr>"
proof -
  let ?f = "Stored [deal_ex 1, deal_ex 2]"
  let ?d = "\<lparr>year = 2026, month = 7, day = 21\<rparr>"
  let ?a = "\<lparr>year = 2026, month = 7, day = 22\<rparr>"
  let ?b = "\<lparr>year = 2026, month = 8, day = 21\<rparr>"
  note T1 = range_filter_and_report[of ?f ?d ?d]
  note T2 = range_filter_and_report[of ?f ?a ?b ?a ?b]
  have v: "valid_date ?a" "valid_date ?b" "date_le ?a ?b"
    by (simp_all add: valid_date_def MINYEAR_def MAXYEAR_def days_in_month_def DAYS_IN_MONTH_def
        date_le_def)
  have 5: "toordinal ?a \<le> toordinal ?b" using T2 v by blast
  have 1: "filter_deals_by_date_range ?f ?d ?d = [deal_ex 1, deal_ex 2]"
    using T1 by (simp add: load_deals_def deal_ex_def new_deal_def date_le_def)
  have s: "sum_list (map share [deal_ex 1, deal_ex 2]) = 490 / 9"
    by (simp add: deal_ex_def new_deal_def)
  have 2: "show_report ?f ?d ?d = Report (490 / 9) [deal_ex 1, deal_ex 2]"
    using T1 unfolding 1 s by simp
  have n: "\<forall>x\<in>set (load_deals ?f). \<not> (date_le ?a (date_iso x) \<and> date_le (date_iso x) ?b)"
    by (simp add: load_deals_def deal_ex_def new_deal_def date_le_def)
  have 3: "filter_deals_by_date_range ?f ?a ?b = []" using T2 n by blast
  have 4: "show_report ?f ?a ?b = NoDeals" using T2 3 by blast
  show ?thesis using 1 2 3 4 5 by blast
qed

end
